theory Spec2Isabelle
  imports Main "HOL-Library.Word" "HOL-Library.Sublist"
begin

section \<open>JavaScript strings\<close>

text \<open>
  A JavaScript string is a sequence of UTF-16 code units; \<open>length\<close>, \<open>slice\<close>,
  \<open>startsWith\<close>, \<open>split\<close> and a regular expression without the \<open>u\<close> flag all count
  and compare code units. A code unit is a 16-bit word here, and \<open>js\<close> writes an ASCII
  literal as such a string.
\<close>

type_synonym jsstring = "16 word list"

definition js :: "string \<Rightarrow> jsstring" where
  "js s = map of_char s"

text \<open>
  The class \<open>\s\<close> of a JavaScript regular expression, which is also what \<open>trim\<close>
  removes: WhiteSpace (TAB, VT, FF, SP, NBSP, ZWNBSP and the Unicode space separators)
  and LineTerminator (LF, CR, LS, PS).
\<close>

definition is_space :: "16 word \<Rightarrow> bool" where
  "is_space c =
     (c = 0x9 \<or> c = 0xA \<or> c = 0xB \<or> c = 0xC \<or> c = 0xD \<or> c = 0x20 \<or> c = 0xA0
      \<or> c = 0x1680 \<or> (0x2000 \<le> c \<and> c \<le> 0x200A) \<or> c = 0x2028 \<or> c = 0x2029
      \<or> c = 0x202F \<or> c = 0x205F \<or> c = 0x3000 \<or> c = 0xFEFF)"

definition startsWith :: "jsstring \<Rightarrow> jsstring \<Rightarrow> bool" where
  "startsWith s p = (take (length p) s = p)"

text \<open>
  \<open>s.slice(start, end)\<close>: a negative index counts from the end, both indices are
  clamped to the string, and an empty string results when they cross. The second index
  is optional.
\<close>

definition slice :: "jsstring \<Rightarrow> int \<Rightarrow> int option \<Rightarrow> jsstring" where
  "slice s start fin =
     (let len = int (length s);
          lo = (if start < 0 then max (len + start) 0 else min start len);
          hi = (case fin of
                  None \<Rightarrow> len
                | Some e \<Rightarrow> if e < 0 then max (len + e) 0 else min e len)
      in take (nat (hi - lo)) (drop (nat lo) s))"

text \<open>\<open>s.split("\n")\<close>: the pieces between the separators; never an empty array.\<close>

fun split :: "16 word \<Rightarrow> jsstring \<Rightarrow> jsstring list" where
  "split sep [] = [[]]"
| "split sep (c # cs) =
     (let r = split sep cs
      in if c = sep then [] # r else (c # hd r) # tl r)"

text \<open>\<open>a.join(sep)\<close>.\<close>

fun join :: "jsstring \<Rightarrow> jsstring list \<Rightarrow> jsstring" where
  "join sep [] = []"
| "join sep [x] = x"
| "join sep (x # y # ys) = x @ sep @ join sep (y # ys)"

text \<open>\<open>s.trim()\<close>.\<close>

definition trim :: "jsstring \<Rightarrow> jsstring" where
  "trim s = rev (dropWhile is_space (rev (dropWhile is_space s)))"

definition newline :: "16 word" where
  "newline = 0xA"

definition star :: "16 word" where
  "star = 0x2A"

text \<open>
  \<open>text.match(/^M\s?/)\<close> for a literal marker \<open>M\<close>: the matched substring
  \<open>match[0]\<close> (the marker and, greedily, one following whitespace character), or
  \<open>None\<close> for \<open>null\<close>.
\<close>

definition match_marker :: "jsstring \<Rightarrow> jsstring \<Rightarrow> jsstring option" where
  "match_marker marker s =
     (if startsWith s marker then
        (case drop (length marker) s of
           [] \<Rightarrow> Some marker
         | c # _ \<Rightarrow> if is_space c then Some (marker @ [c]) else Some marker)
      else None)"

text \<open>
  \<open>line.replace(/^\s*\*\s?/, "")\<close>: the expression matches only at the start of the
  string, when the longest run of whitespace there is followed by \<open>*\<close> (which is no
  whitespace, so a shorter run never matches); the match then takes one following
  whitespace character if there is one. Without a match the string is unchanged.
\<close>

definition replace_star :: "jsstring \<Rightarrow> jsstring" where
  "replace_star l =
     (case dropWhile is_space l of
        [] \<Rightarrow> l
      | c # r \<Rightarrow>
          if c = star then
            (case r of
               [] \<Rightarrow> []
             | d # r' \<Rightarrow> if is_space d then r' else r)
          else l)"

section \<open>Tokens and nodes\<close>

text \<open>The fields of tree-sitter's \<open>SyntaxNode\<close> that the conversion reads.\<close>

record Point =
  row :: nat
  column :: nat

record SyntaxNode =
  text' :: jsstring
  startIndex :: nat
  endIndex :: nat
  startPosition :: Point
  endPosition :: Point

datatype ASTNodeTypes = Str | Paragraph | Document

record TxtNodePosition =
  line :: nat
  column' :: nat

record TxtNodeLocation =
  start :: TxtNodePosition
  end' :: TxtNodePosition

record TxtNode =
  type' :: ASTNodeTypes
  raw :: jsstring
  range' :: "nat \<times> nat"
  loc :: TxtNodeLocation

record TxtStrNode = TxtNode +
  value' :: jsstring

record 'c TxtParentNode = TxtNode +
  children :: "'c list"

type_synonym TxtParagraphNode = "TxtStrNode TxtParentNode"

type_synonym TxtDocumentNode = "TxtParagraphNode TxtParentNode"

section \<open>The comment classifier\<close>

datatype RustdocType = outer_line | inner_line | outer_block | inner_block

definition getRustdocType :: "jsstring \<Rightarrow> RustdocType option" where
  "getRustdocType s =
     (if startsWith s (js ''///'') then Some outer_line
      else if startsWith s (js ''//!'') then Some inner_line
      else if startsWith s (js ''/**'') \<and> \<not> startsWith s (js ''/***'') then Some outer_block
      else if startsWith s (js ''/*!'') then Some inner_block
      else None)"

definition processBlockContent :: "jsstring \<Rightarrow> jsstring" where
  "processBlockContent c =
     (let lines = split newline c
      in trim (join [newline] (map replace_star lines)))"

record Extracted =
  content :: jsstring
  prefixLength :: nat

fun extractContent :: "jsstring \<Rightarrow> RustdocType \<Rightarrow> Extracted" where
  "extractContent s outer_line =
     (let match = match_marker (js ''///'') s;
          n = (case match of Some m \<Rightarrow> length m | None \<Rightarrow> 3)
      in \<lparr>content = slice s (int n) None, prefixLength = n\<rparr>)"
| "extractContent s inner_line =
     (let match = match_marker (js ''//!'') s;
          n = (case match of Some m \<Rightarrow> length m | None \<Rightarrow> 3)
      in \<lparr>content = slice s (int n) None, prefixLength = n\<rparr>)"
| "extractContent s outer_block =
     (let inner = slice s 3 (Some (- 2))
      in \<lparr>content = processBlockContent inner, prefixLength = 3\<rparr>)"
| "extractContent s inner_block =
     (let inner = slice s 3 (Some (- 2))
      in \<lparr>content = processBlockContent inner, prefixLength = 3\<rparr>)"

section \<open>The tree builder\<close>

definition createStrNode :: "SyntaxNode \<Rightarrow> RustdocType \<Rightarrow> TxtStrNode" where
  "createStrNode node docType =
     (let e = extractContent (text' node) docType;
          startColumn = column (startPosition node) + prefixLength e;
          startIdx = startIndex node + prefixLength e
      in \<lparr>type' = Str,
          raw = content e,
          range' = (startIdx, endIndex node),
          loc = \<lparr>start = \<lparr>line = row (startPosition node) + 1, column' = startColumn\<rparr>,
                 end' = \<lparr>line = row (endPosition node) + 1,
                         column' = column (endPosition node)\<rparr>\<rparr>,
          value' = content e\<rparr>)"

text \<open>\<open>a.at(0)\<close> and \<open>a.at(-1)\<close>: \<open>None\<close> is \<open>undefined\<close>.\<close>

definition at_first :: "'a list \<Rightarrow> 'a option" where
  "at_first xs = (case xs of [] \<Rightarrow> None | x # _ \<Rightarrow> Some x)"

definition at_last :: "'a list \<Rightarrow> 'a option" where
  "at_last xs = (if xs = [] then None else Some (last xs))"

text \<open>The loop of \<open>createParagraphNode\<close> that collects the children.\<close>

fun strNodes :: "SyntaxNode list \<Rightarrow> TxtStrNode list" where
  "strNodes [] = []"
| "strNodes (node # nodes) =
     (case getRustdocType (text' node) of
        None \<Rightarrow> strNodes nodes
      | Some docType \<Rightarrow> createStrNode node docType # strNodes nodes)"

definition createParagraphNode :: "SyntaxNode list \<Rightarrow> TxtParagraphNode option" where
  "createParagraphNode nodes =
     (if length nodes = 0 then None
      else
        let cs = strNodes nodes
        in if length cs = 0 then None
           else
             (case (at_first cs, at_last cs) of
                (Some firstChild, Some lastChild) \<Rightarrow>
                  Some \<lparr>type' = Paragraph,
                        raw = join [newline] (map text' nodes),
                        range' = (fst (range' firstChild), snd (range' lastChild)),
                        loc = \<lparr>start = start (loc firstChild), end' = end' (loc lastChild)\<rparr>,
                        children = cs\<rparr>
              | _ \<Rightarrow> None))"

text \<open>
  The loop of \<open>groupConsecutiveNodes\<close>: \<open>prev\<close> is \<open>nodes.at(i - 1)\<close>, the list
  argument holds \<open>nodes[i]\<close> and what follows it, \<open>groups\<close> and \<open>currentGroup\<close> are
  the loop's two variables.
\<close>

fun groupLoop ::
  "SyntaxNode \<Rightarrow> SyntaxNode list \<Rightarrow> SyntaxNode list list \<Rightarrow> SyntaxNode list
   \<Rightarrow> SyntaxNode list list"
where
  "groupLoop prev [] groups currentGroup = groups @ [currentGroup]"
| "groupLoop prev (cur # rest) groups currentGroup =
     (if row (startPosition cur) = row (startPosition prev) + 1
      then groupLoop cur rest groups (currentGroup @ [cur])
      else groupLoop cur rest (groups @ [currentGroup]) [cur])"

definition groupConsecutiveNodes :: "SyntaxNode list \<Rightarrow> SyntaxNode list list" where
  "groupConsecutiveNodes nodes =
     (case nodes of
        [] \<Rightarrow> []
      | firstNode # rest \<Rightarrow> groupLoop firstNode rest [] [firstNode])"

text \<open>The loop of \<open>convertToTextlintAst\<close> that collects the paragraphs.\<close>

fun paragraphs :: "SyntaxNode list list \<Rightarrow> TxtParagraphNode list" where
  "paragraphs [] = []"
| "paragraphs (g # gs) =
     (case createParagraphNode g of
        None \<Rightarrow> paragraphs gs
      | Some p \<Rightarrow> p # paragraphs gs)"

definition convertToTextlintAst :: "SyntaxNode list \<Rightarrow> jsstring \<Rightarrow> TxtDocumentNode" where
  "convertToTextlintAst docNodes rawText =
     (let rustdocNodes = filter (\<lambda>node. getRustdocType (text' node) \<noteq> None) docNodes;
          groups = groupConsecutiveNodes rustdocNodes;
          cs = paragraphs groups
      in case (at_first cs, at_last cs) of
           (Some firstChild, Some lastChild) \<Rightarrow>
             \<lparr>type' = Document,
              raw = rawText,
              range' = (fst (range' firstChild), snd (range' lastChild)),
              loc = \<lparr>start = start (loc firstChild), end' = end' (loc lastChild)\<rparr>,
              children = cs\<rparr>
         | _ \<Rightarrow>
             \<lparr>type' = Document,
              raw = rawText,
              range' = (0, length rawText),
              loc = \<lparr>start = \<lparr>line = 1, column' = 0\<rparr>, end' = \<lparr>line = 1, column' = 0\<rparr>\<rparr>,
              children = []\<rparr>)"

text \<open>The single-node entry point \<open>traverse\<close>.\<close>

definition traverse :: "SyntaxNode \<Rightarrow> TxtStrNode option" where
  "traverse docNode =
     (case getRustdocType (text' docNode) of
        None \<Rightarrow> None
      | Some docType \<Rightarrow> Some (createStrNode docNode docType))"

section \<open>Notions used by the properties\<close>

abbreviation srow :: "SyntaxNode \<Rightarrow> nat" where
  "srow n \<equiv> row (startPosition n)"

abbreviation isRustdoc :: "SyntaxNode \<Rightarrow> bool" where
  "isRustdoc n \<equiv> getRustdocType (text' n) \<noteq> None"

text \<open>A run: every token starts one row below the token before it.\<close>

fun consecutive :: "SyntaxNode list \<Rightarrow> bool" where
  "consecutive [] = True"
| "consecutive [x] = True"
| "consecutive (x # y # ys) = (srow y = srow x + 1 \<and> consecutive (y # ys))"

text \<open>Maximal runs: no group starts one row below the last token of the group before it.\<close>

fun separated :: "SyntaxNode list list \<Rightarrow> bool" where
  "separated [] = True"
| "separated [g] = True"
| "separated (g # h # gs) = (srow (hd h) \<noteq> srow (last g) + 1 \<and> separated (h # gs))"

text \<open>A partition of a token sequence into maximal runs, in order.\<close>

definition run_partition :: "SyntaxNode list \<Rightarrow> SyntaxNode list list \<Rightarrow> bool" where
  "run_partition xs gs =
     (concat gs = xs \<and> list_all (\<lambda>g. g \<noteq> [] \<and> consecutive g) gs \<and> separated gs)"

text \<open>
  Modelled from the spec: the tokenizer is an external collaborator (tree-sitter) and
  none of its code is in the repository. Section 3 of the specification describes a
  token as a raw text with its start and end offsets and its start and end positions
  in the source; a token is therefore taken to be a piece of the source: the raw text
  lies between the two offsets, and the end position is where reading the raw text from
  the start position ends. \<open>advance\<close> is that reading: a line feed begins a new row at
  column 0.
\<close>

definition advance :: "Point \<Rightarrow> jsstring \<Rightarrow> Point" where
  "advance p s =
     (if newline \<in> set s
      then \<lparr>row = row p + count_list s newline,
            column = length (takeWhile (\<lambda>c. c \<noteq> newline) (rev s))\<rparr>
      else \<lparr>row = row p, column = column p + length s\<rparr>)"

definition wf_token :: "SyntaxNode \<Rightarrow> bool" where
  "wf_token n =
     (endIndex n = startIndex n + length (text' n)
      \<and> endPosition n = advance (startPosition n) (text' n))"

text \<open>The token for the text \<open>s\<close> found at offset \<open>i\<close>, row \<open>r\<close> and column \<open>c\<close>.\<close>

definition tokenAt :: "string \<Rightarrow> nat \<Rightarrow> nat \<Rightarrow> nat \<Rightarrow> SyntaxNode" where
  "tokenAt s i r c =
     \<lparr>text' = js s, startIndex = i, endIndex = i + length s,
      startPosition = \<lparr>row = r, column = c\<rparr>,
      endPosition = advance \<lparr>row = r, column = c\<rparr> (js s)\<rparr>"

text \<open>
  The marker of each kind of documentation comment, and the body of a comment of that
  kind: the raw text without the three characters of the opening marker and, for a block
  comment, without the two characters of the closing marker.
\<close>

fun marker :: "RustdocType \<Rightarrow> jsstring" where
  "marker outer_line = js ''///''"
| "marker inner_line = js ''//!''"
| "marker outer_block = js ''/**''"
| "marker inner_block = js ''/*!''"

fun comment_body :: "jsstring \<Rightarrow> RustdocType \<Rightarrow> jsstring" where
  "comment_body s outer_line = drop 3 s"
| "comment_body s inner_line = drop 3 s"
| "comment_body s outer_block = take (length s - 5) (drop 3 s)"
| "comment_body s inner_block = take (length s - 5) (drop 3 s)"

text \<open>The order of locations: by line, then by column.\<close>

definition pos_le :: "TxtNodePosition \<Rightarrow> TxtNodePosition \<Rightarrow> bool" where
  "pos_le p q = (line p < line q \<or> (line p = line q \<and> column' p \<le> column' q))"

text \<open>
  A paragraph has children, and its range and location run from the start of its first
  child to the end of its last child.
\<close>

definition paragraph_spans_children :: "TxtParagraphNode \<Rightarrow> bool" where
  "paragraph_spans_children p =
     (children p \<noteq> []
      \<and> range' p = (fst (range' (hd (children p))), snd (range' (last (children p))))
      \<and> loc p = \<lparr>start = start (loc (hd (children p))), end' = end' (loc (last (children p)))\<rparr>)"

text \<open>
  The document of a source text as section 3 of the specification describes it: the
  raw text is the source; every child is a paragraph that spans its children, which are
  string leaves whose raw text is their value; without paragraphs the range is the
  whole source and the location is the start of the source, with paragraphs both run
  from the first paragraph to the last.
\<close>

definition wf_document :: "jsstring \<Rightarrow> TxtDocumentNode \<Rightarrow> bool" where
  "wf_document src d =
     (type' d = Document \<and> raw d = src
      \<and> list_all (\<lambda>p. type' p = Paragraph \<and> paragraph_spans_children p
                     \<and> list_all (\<lambda>c. type' c = Str \<and> raw c = value' c) (children p))
           (children d)
      \<and> (if children d = []
         then range' d = (0, length src)
              \<and> loc d = \<lparr>start = \<lparr>line = 1, column' = 0\<rparr>, end' = \<lparr>line = 1, column' = 0\<rparr>\<rparr>
         else range' d = (fst (range' (hd (children d))), snd (range' (last (children d))))
              \<and> loc d = \<lparr>start = start (loc (hd (children d))),
                          end' = end' (loc (last (children d)))\<rparr>))"

text \<open>
  The location of an offset of a source text, with lines counted from 1 and columns
  from 0: what a location that corresponds to an offset would be.
\<close>

definition locationOf :: "jsstring \<Rightarrow> nat \<Rightarrow> TxtNodePosition" where
  "locationOf src off =
     (let p = advance \<lparr>row = 0, column = 0\<rparr> (take off src)
      in \<lparr>line = row p + 1, column' = column p\<rparr>)"

text \<open>A line whose first character after its leading whitespace is \<open>*\<close>.\<close>

definition star_led :: "jsstring \<Rightarrow> bool" where
  "star_led l = (case dropWhile is_space l of [] \<Rightarrow> False | c # _ \<Rightarrow> c = star)"

text \<open>
  The marker of a line of a block comment, the per-line leading marker of section 2 of
  the specification: the \<open>*\<close> that begins the line, with the whitespace before it and
  one whitespace character after it, if there is one. A line that does not begin with
  \<open>*\<close> after its leading whitespace has no marker.
\<close>

definition line_marker :: "jsstring \<Rightarrow> jsstring" where
  "line_marker l =
     (case dropWhile is_space l of
        [] \<Rightarrow> []
      | c # r \<Rightarrow>
          if c = star then
            takeWhile is_space l
            @ star # (case r of [] \<Rightarrow> [] | d # _ \<Rightarrow> if is_space d then [d] else [])
          else [])"

text \<open>
  The stripping of a line of a block comment in the words of the specification: any
  leading whitespace, then an optional \<open>*\<close>, then one optional whitespace character
  (the expression \<open>/^\s*\*?\s?/\<close>); and the content of a block comment with that
  stripping.
\<close>

definition spec_strip_line :: "jsstring \<Rightarrow> jsstring" where
  "spec_strip_line l =
     (let r = dropWhile is_space l;
          r' = (case r of [] \<Rightarrow> r | c # t \<Rightarrow> if c = star then t else r)
      in case r' of [] \<Rightarrow> [] | d # t \<Rightarrow> if is_space d then t else r')"

definition spec_block_content :: "jsstring \<Rightarrow> jsstring" where
  "spec_block_content s =
     trim (join [newline] (map spec_strip_line (split newline (take (length s - 5) (drop 3 s)))))"

section \<open>Strings: splitting, joining, stripping\<close>

lemma split_nonempty: "split sep s \<noteq> []"
  by (induction s) (simp_all add: Let_def)

lemma join_Cons_head: "join sep ((c # x) # xs) = c # join sep (x # xs)"
  by (cases xs) simp_all

lemma join_split: "join [sep] (split sep s) = s"
proof (induction s)
  case Nil
  then show ?case by simp
next
  case (Cons c cs)
  obtain l ls where r: "split sep cs = l # ls"
    using split_nonempty [of sep cs] by (cases "split sep cs") auto
  with Cons show ?case
    by (simp add: Let_def join_Cons_head)
qed

lemma split_no_separator: "l \<in> set (split sep s) \<Longrightarrow> sep \<notin> set l"
proof (induction s arbitrary: l)
  case Nil
  then show ?case by simp
next
  case (Cons c cs)
  obtain h t where r: "split sep cs = h # t"
    using split_nonempty [of sep cs] by (cases "split sep cs") auto
  with Cons show ?case
    by (auto simp: Let_def split: if_splits)
qed

lemma suffix_replace_star: "suffix (replace_star l) l"
proof -
  have d: "suffix (dropWhile is_space l) l"
    by (rule suffix_dropWhile)
  show ?thesis
  proof (cases "dropWhile is_space l")
    case Nil
    show ?thesis unfolding replace_star_def Nil by simp
  next
    case (Cons c r)
    with d have r: "suffix r l"
      by (metis suffix_ConsD)
    show ?thesis
    proof (cases r)
      case Nil
      show ?thesis unfolding replace_star_def \<open>dropWhile is_space l = c # r\<close> Nil by simp
    next
      case (Cons d r')
      with r have "suffix r' l" by (metis suffix_ConsD)
      with r show ?thesis
        unfolding replace_star_def \<open>dropWhile is_space l = c # r\<close> Cons by simp
    qed
  qed
qed

lemma sublist_trim: "sublist (trim s) s"
proof -
  have "suffix (rev (trim s)) (rev (dropWhile is_space s))"
    by (simp add: trim_def suffix_dropWhile)
  then have "prefix (trim s) (dropWhile is_space s)"
    by (simp add: suffix_to_prefix)
  then have "sublist (trim s) (dropWhile is_space s)" by (rule prefix_imp_sublist)
  moreover have "sublist (dropWhile is_space s) s" by simp
  ultimately show ?thesis by (rule sublist_order.order_trans)
qed

lemma subseq_join_map:
  "(\<And>l. subseq (f l) l) \<Longrightarrow> subseq (join sep (map f ls)) (join sep ls)"
proof (induction sep ls rule: join.induct)
  case (1 sep)
  then show ?case by simp
next
  case (2 sep x)
  then show ?case by simp
next
  case (3 sep x y ys)
  have "subseq (f x @ sep @ join sep (map f (y # ys))) (x @ sep @ join sep (y # ys))"
    by (intro list_emb_append_mono 3 subseq_order.order_refl)
  then show ?case by simp
qed

lemma subseq_processBlockContent: "subseq (processBlockContent s) s"
proof -
  have "subseq (join [newline] (map replace_star (split newline s)))
          (join [newline] (split newline s))"
    by (rule subseq_join_map) (simp add: suffix_replace_star suffix_imp_subseq)
  then have "subseq (join [newline] (map replace_star (split newline s))) s"
    by (simp add: join_split)
  moreover have "subseq (trim (join [newline] (map replace_star (split newline s))))
      (join [newline] (map replace_star (split newline s)))"
    by (simp add: sublist_trim sublist_imp_subseq)
  ultimately show ?thesis
    unfolding processBlockContent_def Let_def by (rule subseq_order.order_trans[rotated])
qed

lemma slice_from: "slice s (int n) None = drop n s"
  by (simp add: slice_def Let_def min_def)

lemma slice_block: "slice s 3 (Some (- 2)) = take (length s - 5) (drop 3 s)"
  by (auto simp: slice_def Let_def min_def max_def nat_diff_distrib')

lemma join_member_sublist: "x \<in> set xs \<Longrightarrow> sublist x (join sep xs)"
proof (induction sep xs rule: join.induct)
  case (1 sep)
  then show ?case by simp
next
  case (2 sep y)
  then show ?case by simp
next
  case (3 sep y z zs)
  show ?case
  proof (cases "x = y")
    case True
    then show ?thesis by simp
  next
    case False
    with 3 have "sublist x (join sep (z # zs))" by simp
    moreover have "sublist (join sep (z # zs)) ((y @ sep) @ join sep (z # zs))"
      by (rule sublist_append_leftI)
    ultimately have "sublist x ((y @ sep) @ join sep (z # zs))"
      by (rule sublist_order.order_trans)
    then show ?thesis by simp
  qed
qed

lemma not_space_star: "\<not> is_space star"
  by (simp add: is_space_def star_def)

lemma replace_star_spec: "replace_star l = (if star_led l then spec_strip_line l else l)"
proof (cases "dropWhile is_space l")
  case Nil
  show ?thesis unfolding replace_star_def star_led_def Nil by simp
next
  case (Cons c r)
  have c: "\<not> is_space c"
    using Cons by (metis hd_dropWhile list.sel(1) list.distinct(1))
  show ?thesis
    unfolding replace_star_def star_led_def spec_strip_line_def Let_def Cons
    by (cases r) (simp_all add: c)
qed

lemma replace_star_led:
  "list_all is_space ws \<Longrightarrow>
   replace_star (ws @ star # rest)
   = (case rest of [] \<Rightarrow> [] | d # t \<Rightarrow> if is_space d then t else rest)"
proof -
  assume "list_all is_space ws"
  then have "dropWhile is_space (ws @ star # rest) = star # rest"
    by (simp add: dropWhile_append2 list_all_iff not_space_star)
  then show ?thesis
    unfolding replace_star_def by simp
qed

lemma line_marker_replace_star: "l = line_marker l @ replace_star l"
proof (cases "dropWhile is_space l")
  case Nil
  show ?thesis unfolding line_marker_def replace_star_def Nil by simp
next
  case (Cons c r)
  note dw = this
  have l: "takeWhile is_space l @ c # r = l"
    using takeWhile_dropWhile_id [of is_space l] unfolding dw by simp
  show ?thesis
  proof (cases "c = star")
    case False
    then show ?thesis unfolding line_marker_def replace_star_def dw by simp
  next
    case True
    show ?thesis
    proof (cases r)
      case Nil
      have "line_marker l @ replace_star l = takeWhile is_space l @ c # r"
        unfolding line_marker_def replace_star_def dw Nil using True by simp
      with l show ?thesis by simp
    next
      case (Cons d r')
      have "line_marker l @ replace_star l = takeWhile is_space l @ c # r"
        unfolding line_marker_def replace_star_def dw Cons using True by simp
      with l show ?thesis by simp
    qed
  qed
qed

lemma replace_star_drop_marker: "replace_star l = drop (length (line_marker l)) l"
proof -
  have "drop (length (line_marker l)) (line_marker l @ replace_star l) = replace_star l"
    by simp
  then show ?thesis
    using line_marker_replace_star [of l] by simp
qed

lemma replace_star_fun: "replace_star = (\<lambda>l. drop (length (line_marker l)) l)"
  by (rule ext) (rule replace_star_drop_marker)

lemma prefix_line_marker: "prefix (line_marker l) l"
  using line_marker_replace_star [of l] by (metis prefixI)

lemma line_marker_led:
  "list_all is_space ws \<Longrightarrow>
   line_marker (ws @ star # rest)
   = ws @ star # (case rest of [] \<Rightarrow> [] | d # _ \<Rightarrow> if is_space d then [d] else [])"
proof -
  assume a: "list_all is_space ws"
  then have "dropWhile is_space (ws @ star # rest) = star # rest"
    by (simp add: dropWhile_append2 list_all_iff not_space_star)
  moreover from a have "takeWhile is_space (ws @ star # rest) = ws"
    by (simp add: takeWhile_append2 list_all_iff not_space_star)
  ultimately show ?thesis
    unfolding line_marker_def by simp
qed

lemma line_marker_none: "\<not> star_led l \<Longrightarrow> line_marker l = []"
  unfolding line_marker_def star_led_def
  by (cases "dropWhile is_space l") (simp_all del: dropWhile_eq_Nil_conv)

section \<open>Grouping into runs\<close>

lemma groupLoop_concat:
  "concat (groupLoop prev rest groups cur) = concat groups @ cur @ rest"
  by (induction rest arbitrary: prev groups cur) auto

lemma consecutive_snoc:
  "cur \<noteq> [] \<Longrightarrow> consecutive cur \<Longrightarrow> srow c = srow (last cur) + 1 \<Longrightarrow> consecutive (cur @ [c])"
  by (induction cur rule: consecutive.induct) auto

lemma separated_snoc_group:
  "cur \<noteq> [] \<Longrightarrow> separated (groups @ [cur]) \<Longrightarrow> separated (groups @ [cur @ [c]])"
  by (induction groups rule: separated.induct) auto

lemma separated_new_group:
  "separated (groups @ [cur]) \<Longrightarrow> srow c \<noteq> srow (last cur) + 1
   \<Longrightarrow> separated ((groups @ [cur]) @ [[c]])"
  by (induction groups rule: separated.induct) auto

lemma groupLoop_runs:
  "list_all (\<lambda>g. g \<noteq> [] \<and> consecutive g) groups \<Longrightarrow> cur \<noteq> [] \<Longrightarrow> consecutive cur
   \<Longrightarrow> last cur = prev
   \<Longrightarrow> list_all (\<lambda>g. g \<noteq> [] \<and> consecutive g) (groupLoop prev rest groups cur)"
proof (induction rest arbitrary: prev groups cur)
  case Nil
  then show ?case by simp
next
  case (Cons c rest)
  show ?case
  proof (cases "srow c = srow prev + 1")
    case True
    with Cons.prems have "consecutive (cur @ [c])"
      by (simp add: consecutive_snoc)
    with Cons.prems True show ?thesis
      by (simp add: Cons.IH)
  next
    case False
    with Cons.prems show ?thesis
      by (simp add: Cons.IH)
  qed
qed

lemma groupLoop_separated:
  "separated (groups @ [cur]) \<Longrightarrow> cur \<noteq> [] \<Longrightarrow> last cur = prev
   \<Longrightarrow> separated (groupLoop prev rest groups cur)"
proof (induction rest arbitrary: prev groups cur)
  case Nil
  then show ?case by simp
next
  case (Cons c rest)
  show ?case
  proof (cases "srow c = srow prev + 1")
    case True
    with Cons.prems show ?thesis
      by (simp add: Cons.IH separated_snoc_group)
  next
    case False
    with Cons.prems have "separated ((groups @ [cur]) @ [[c]])"
      by (intro separated_new_group) simp_all
    with False show ?thesis
      by (simp add: Cons.IH)
  qed
qed

lemma groupConsecutiveNodes_run_partition:
  "run_partition xs (groupConsecutiveNodes xs)"
proof (cases xs)
  case Nil
  then show ?thesis by (simp add: run_partition_def groupConsecutiveNodes_def)
next
  case (Cons x rest)
  have "list_all (\<lambda>g. g \<noteq> [] \<and> consecutive g) (groupLoop x rest [] [x])"
    by (rule groupLoop_runs) simp_all
  moreover have "separated (groupLoop x rest [] [x])"
    by (rule groupLoop_separated) simp_all
  ultimately show ?thesis using Cons
    by (simp add: run_partition_def groupConsecutiveNodes_def groupLoop_concat)
qed

lemma consecutive_append_rows:
  "consecutive (a @ b) \<Longrightarrow> a \<noteq> [] \<Longrightarrow> b \<noteq> [] \<Longrightarrow> srow (hd b) = srow (last a) + 1"
proof (induction a rule: consecutive.induct)
  case 1
  then show ?case by simp
next
  case (2 x)
  then show ?case by (cases b) simp_all
next
  case (3 x y ys)
  then show ?case by simp
qed

lemma separated_tl: "separated (g # gs) \<Longrightarrow> separated gs"
  by (cases gs) simp_all

lemma no_longer_run:
  assumes "separated (g # gs)" and "list_all (\<lambda>g. g \<noteq> [] \<and> consecutive g) gs"
    and "concat gs = us @ rest" and "us \<noteq> []" and "g \<noteq> []"
  shows "\<not> consecutive (g @ us)"
proof
  assume c: "consecutive (g @ us)"
  from assms(3,4) obtain h gs' where gs: "gs = h # gs'"
    by (cases gs) auto
  with assms(2) have "h \<noteq> []" by simp
  with gs assms(3,4) have "hd h = hd us"
    by (cases h; cases us) auto
  moreover from c assms(5,4) have "srow (hd us) = srow (last g) + 1"
    by (rule consecutive_append_rows)
  moreover from assms(1) gs have "srow (hd h) \<noteq> srow (last g) + 1"
    by simp
  ultimately show False by simp
qed

lemma run_partition_unique_aux:
  "list_all (\<lambda>g. g \<noteq> [] \<and> consecutive g) gs \<Longrightarrow> separated gs
   \<Longrightarrow> list_all (\<lambda>g. g \<noteq> [] \<and> consecutive g) hs \<Longrightarrow> separated hs
   \<Longrightarrow> concat gs = concat hs \<Longrightarrow> gs = hs"
proof (induction gs arbitrary: hs)
  case Nil
  then show ?case by (cases hs) auto
next
  case (Cons g gs)
  from Cons.prems obtain h hs' where hs: "hs = h # hs'"
    by (cases hs) auto
  from Cons.prems hs have ne: "g \<noteq> []" "h \<noteq> []" and cg: "consecutive g" and ch: "consecutive h"
    and ag: "list_all (\<lambda>g. g \<noteq> [] \<and> consecutive g) gs"
    and ah: "list_all (\<lambda>g. g \<noteq> [] \<and> consecutive g) hs'"
    by simp_all
  from Cons.prems hs have eq: "g @ concat gs = h @ concat hs'" by simp
  then obtain us where us: "g = h @ us \<and> us @ concat gs = concat hs'
      \<or> g @ us = h \<and> concat gs = us @ concat hs'"
    by (auto simp: append_eq_append_conv2)
  have "us = []"
  proof (rule ccontr)
    assume n: "us \<noteq> []"
    from us show False
    proof
      assume a: "g = h @ us \<and> us @ concat gs = concat hs'"
      from Cons.prems(4) hs have sh: "separated (h # hs')" by simp
      from a have "concat hs' = us @ concat gs" by simp
      with sh ah have "\<not> consecutive (h @ us)"
        using n ne(2) by (rule no_longer_run)
      with a cg show False by simp
    next
      assume a: "g @ us = h \<and> concat gs = us @ concat hs'"
      then have "concat gs = us @ concat hs'" by simp
      with Cons.prems(2) ag have "\<not> consecutive (g @ us)"
        using n ne(1) by (rule no_longer_run)
      with a ch show False by simp
    qed
  qed
  with us have "g = h" and "concat gs = concat hs'" by auto
  moreover from Cons.prems(2) have "separated gs" by (rule separated_tl)
  moreover from Cons.prems(4) hs have "separated hs'" by (auto dest: separated_tl)
  ultimately show ?case using Cons.IH [OF ag _ ah] hs by simp
qed

lemma run_partition_unique:
  "run_partition xs gs \<Longrightarrow> run_partition xs hs \<Longrightarrow> gs = hs"
  using run_partition_unique_aux [of gs hs] by (simp add: run_partition_def)

section \<open>Classification and extraction\<close>

lemma getRustdocType_rules:
  "startsWith s (js ''///'') \<Longrightarrow> getRustdocType s = Some outer_line"
  "startsWith s (js ''//!'') \<Longrightarrow> getRustdocType s = Some inner_line"
  "startsWith s (js ''/**'') \<Longrightarrow> \<not> startsWith s (js ''/***'')
     \<Longrightarrow> getRustdocType s = Some outer_block"
  "startsWith s (js ''/*!'') \<Longrightarrow> getRustdocType s = Some inner_block"
  "startsWith s (js ''/***'') \<Longrightarrow> getRustdocType s = None"
  "\<not> startsWith s (js ''///'') \<Longrightarrow> \<not> startsWith s (js ''//!'')
     \<Longrightarrow> \<not> startsWith s (js ''/**'') \<Longrightarrow> \<not> startsWith s (js ''/*!'')
     \<Longrightarrow> getRustdocType s = None"
  by (auto simp: getRustdocType_def startsWith_def js_def dest: arg_cong [where f = "take 3"])

lemma length_marker: "length (marker k) = 3"
  by (cases k) (simp_all add: js_def)

lemma startsWith_prefix: "startsWith s p \<longleftrightarrow> prefix p s"
proof
  assume "startsWith s p"
  then have "s = p @ drop (length p) s"
    by (metis append_take_drop_id startsWith_def)
  then show "prefix p s" by (rule prefixI)
next
  assume "prefix p s"
  then show "startsWith s p"
    by (auto simp: prefix_def startsWith_def)
qed

lemma getRustdocType_prefix: "getRustdocType s = Some k \<Longrightarrow> prefix (marker k) s"
  by (cases k) (auto simp: getRustdocType_def startsWith_prefix split: if_splits)

lemma getRustdocType_marker: "getRustdocType s = Some k \<Longrightarrow> take 3 s = marker k"
  by (auto simp: prefix_def length_marker dest!: getRustdocType_prefix)

lemma getRustdocType_length: "getRustdocType s = Some k \<Longrightarrow> 3 \<le> length s"
  by (auto simp: prefix_def length_marker dest!: getRustdocType_prefix)

lemma match_marker_length:
  "length m = 3 \<Longrightarrow> match_marker m s = Some x \<Longrightarrow>
     length x \<le> length s \<and> (length x = 3 \<or> length x = 4 \<and> is_space (s ! 3))"
proof -
  assume m: "length m = 3" and x: "match_marker m s = Some x"
  from x obtain r where s: "s = m @ r"
    by (auto simp: match_marker_def startsWith_prefix prefix_def split: if_splits)
  show ?thesis
  proof (cases r)
    case Nil
    with x m s show ?thesis
      by (auto simp: match_marker_def split: if_splits)
  next
    case (Cons c r')
    with x m s show ?thesis
      by (auto simp: match_marker_def nth_append split: if_splits)
  qed
qed

lemma prefixLength_cases:
  "prefixLength (extractContent s k) = 3 \<or> prefixLength (extractContent s k) = 4"
proof (cases k)
  case outer_line
  then show ?thesis
    using match_marker_length [of "js ''///''" s]
    by (auto simp: Let_def js_def split: option.splits)
next
  case inner_line
  then show ?thesis
    using match_marker_length [of "js ''//!''" s]
    by (auto simp: Let_def js_def split: option.splits)
qed simp_all

lemma prefixLength_le_length:
  assumes "getRustdocType s = Some k"
  shows "prefixLength (extractContent s k) \<le> length s"
proof (cases k)
  case outer_line
  then show ?thesis
    using match_marker_length [of "js ''///''" s] getRustdocType_length [OF assms]
    by (auto simp: Let_def js_def split: option.splits)
next
  case inner_line
  then show ?thesis
    using match_marker_length [of "js ''//!''" s] getRustdocType_length [OF assms]
    by (auto simp: Let_def js_def split: option.splits)
next
  case outer_block
  then show ?thesis using getRustdocType_length [OF assms] by simp
next
  case inner_block
  then show ?thesis using getRustdocType_length [OF assms] by simp
qed

lemma prefixLength_4_space:
  "prefixLength (extractContent s k) = 4 \<Longrightarrow> is_space (s ! 3)"
proof (cases k)
  case outer_line
  assume "prefixLength (extractContent s k) = 4"
  with outer_line show ?thesis
    using match_marker_length [of "js ''///''" s]
    by (auto simp: Let_def js_def split: option.splits)
next
  case inner_line
  assume "prefixLength (extractContent s k) = 4"
  with inner_line show ?thesis
    using match_marker_length [of "js ''//!''" s]
    by (auto simp: Let_def js_def split: option.splits)
qed simp_all

lemma content_line:
  "k = outer_line \<or> k = inner_line \<Longrightarrow>
     content (extractContent s k) = drop (prefixLength (extractContent s k)) s"
  by (auto simp: Let_def slice_from)

lemma content_block:
  "k = outer_block \<or> k = inner_block \<Longrightarrow>
     content (extractContent s k) = processBlockContent (take (length s - 5) (drop 3 s))"
  by (auto simp: Let_def slice_block)

lemma content_block_lines:
  "k = outer_block \<or> k = inner_block \<Longrightarrow>
   content (extractContent s k)
   = trim (join [newline]
       (map (\<lambda>l. drop (length (line_marker l)) l) (split newline (comment_body s k))))"
  by (auto simp: slice_block processBlockContent_def replace_star_fun)

lemma prefixLength_4_iff:
  assumes "getRustdocType s = Some k" and "k = outer_line \<or> k = inner_line"
  shows "prefixLength (extractContent s k) = 4 \<longleftrightarrow> 3 < length s \<and> is_space (s ! 3)"
proof -
  from assms(1) have p: "prefix (marker k) s" by (rule getRustdocType_prefix)
  then obtain r where s: "s = marker k @ r" by (auto simp: prefix_def)
  have lm: "length (marker k) = 3" by (rule length_marker)
  have sw: "startsWith s (marker k)" using p by (simp add: startsWith_prefix)
  have n: "prefixLength (extractContent s k)
      = (case match_marker (marker k) s of Some m \<Rightarrow> length m | None \<Rightarrow> 3)"
    using assms(2) by (auto simp: Let_def)
  show ?thesis
  proof (cases r)
    case Nil
    with s lm sw show ?thesis
      unfolding n by (simp add: match_marker_def)
  next
    case (Cons c r')
    with s lm have "s ! 3 = c" "3 < length s" "drop (length (marker k)) s = c # r'"
      by (simp_all add: nth_append)
    with sw lm show ?thesis
      unfolding n by (simp add: match_marker_def)
  qed
qed

lemma content_subseq_body: "subseq (content (extractContent s k)) (comment_body s k)"
proof (cases k)
  case outer_line
  have "suffix (drop (prefixLength (extractContent s k) - 3) (drop 3 s)) (drop 3 s)"
    by (rule suffix_drop)
  moreover have "3 \<le> prefixLength (extractContent s k)"
    using prefixLength_cases [of s k] by auto
  ultimately have "suffix (drop (prefixLength (extractContent s k)) s) (drop 3 s)"
    by simp
  with outer_line show ?thesis
    using content_line [of k s] by (simp add: suffix_imp_subseq)
next
  case inner_line
  have "suffix (drop (prefixLength (extractContent s k) - 3) (drop 3 s)) (drop 3 s)"
    by (rule suffix_drop)
  moreover have "3 \<le> prefixLength (extractContent s k)"
    using prefixLength_cases [of s k] by auto
  ultimately have "suffix (drop (prefixLength (extractContent s k)) s) (drop 3 s)"
    by simp
  with inner_line show ?thesis
    using content_line [of k s] by (simp add: suffix_imp_subseq)
next
  case outer_block
  then show ?thesis
    using content_block [of k s] by (simp add: subseq_processBlockContent)
next
  case inner_block
  then show ?thesis
    using content_block [of k s] by (simp add: subseq_processBlockContent)
qed

lemma length_content_body: "length (content (extractContent s k)) \<le> length (comment_body s k)"
  using content_subseq_body [of s k] by (rule list_emb_length)

lemma createStrNode_fields:
  "range' (createStrNode n k) = (startIndex n + prefixLength (extractContent (text' n) k), endIndex n)"
  "value' (createStrNode n k) = content (extractContent (text' n) k)"
  "raw (createStrNode n k) = content (extractContent (text' n) k)"
  "type' (createStrNode n k) = Str"
  "start (loc (createStrNode n k)) =
     \<lparr>line = row (startPosition n) + 1,
      column' = column (startPosition n) + prefixLength (extractContent (text' n) k)\<rparr>"
  "end' (loc (createStrNode n k)) =
     \<lparr>line = row (endPosition n) + 1, column' = column (endPosition n)\<rparr>"
  by (simp_all add: createStrNode_def Let_def)

lemma advance_rows:
  "row (advance p s) = row p + count_list s newline"
  "newline \<notin> set s \<Longrightarrow> column (advance p s) = column p + length s"
  "newline \<in> set s \<Longrightarrow> row p < row (advance p s)"
  using count_list_0_iff [of s newline] by (auto simp: advance_def)

section \<open>Paragraphs and documents\<close>

lemma strNodes_append: "strNodes (xs @ ys) = strNodes xs @ strNodes ys"
  by (induction xs) (simp_all split: option.splits)

lemma strNodes_filter: "strNodes (filter isRustdoc ns) = strNodes ns"
  by (induction ns) (auto split: option.splits)

lemma strNodes_eq_Nil: "strNodes ns = [] \<longleftrightarrow> (\<forall>n\<in>set ns. getRustdocType (text' n) = None)"
  by (induction ns) (auto split: option.splits)

lemma strNodes_map:
  "strNodes ns
   = map (\<lambda>n. createStrNode n (the (getRustdocType (text' n)))) (filter isRustdoc ns)"
  by (induction ns) (auto split: option.splits)

lemma strNodes_wf: "list_all (\<lambda>c. type' c = Str \<and> raw c = value' c) (strNodes ns)"
  by (induction ns) (auto simp: createStrNode_fields split: option.splits)

lemma at_first_last:
  "cs \<noteq> [] \<Longrightarrow> at_first cs = Some (hd cs) \<and> at_last cs = Some (last cs)"
  "at_first [] = None" "at_last [] = None"
  by (cases cs) (simp_all add: at_first_def at_last_def)

lemma createParagraphNode_None: "createParagraphNode g = None \<longleftrightarrow> strNodes g = []"
proof (cases "strNodes g = []")
  case True
  then show ?thesis by (simp add: createParagraphNode_def)
next
  case False
  then have "g \<noteq> []" by auto
  with False show ?thesis
    by (simp add: createParagraphNode_def Let_def at_first_last)
qed

lemma createParagraphNode_Some:
  "strNodes g \<noteq> [] \<Longrightarrow>
   createParagraphNode g
   = Some \<lparr>type' = Paragraph, raw = join [newline] (map text' g),
           range' = (fst (range' (hd (strNodes g))), snd (range' (last (strNodes g)))),
           loc = \<lparr>start = start (loc (hd (strNodes g))), end' = end' (loc (last (strNodes g)))\<rparr>,
           children = strNodes g\<rparr>"
proof -
  assume a: "strNodes g \<noteq> []"
  then have "g \<noteq> []" by auto
  with a show ?thesis
    by (simp add: createParagraphNode_def Let_def at_first_last)
qed

lemma createParagraphNode_fields:
  assumes "createParagraphNode g = Some p"
  shows "type' p = Paragraph" "raw p = join [newline] (map text' g)"
    "children p = strNodes g" "paragraph_spans_children p"
proof -
  from assms have "strNodes g \<noteq> []"
    using createParagraphNode_None [of g] by auto
  from createParagraphNode_Some [OF this] assms
  have p: "p = \<lparr>type' = Paragraph, raw = join [newline] (map text' g),
           range' = (fst (range' (hd (strNodes g))), snd (range' (last (strNodes g)))),
           loc = \<lparr>start = start (loc (hd (strNodes g))), end' = end' (loc (last (strNodes g)))\<rparr>,
           children = strNodes g\<rparr>"
    by simp
  show "type' p = Paragraph" "raw p = join [newline] (map text' g)" "children p = strNodes g"
    by (simp_all add: p)
  show "paragraph_spans_children p"
    using \<open>strNodes g \<noteq> []\<close> by (simp add: p paragraph_spans_children_def)
qed

lemma paragraphs_wf:
  "list_all (\<lambda>p. type' p = Paragraph \<and> paragraph_spans_children p
       \<and> list_all (\<lambda>c. type' c = Str \<and> raw c = value' c) (children p)) (paragraphs gs)"
  by (induction gs) (auto simp: createParagraphNode_fields strNodes_wf split: option.splits)

lemma paragraphs_children: "concat (map children (paragraphs gs)) = strNodes (concat gs)"
proof (induction gs)
  case Nil
  then show ?case by simp
next
  case (Cons g gs)
  show ?case
  proof (cases "createParagraphNode g")
    case None
    then have "strNodes g = []" by (simp add: createParagraphNode_None)
    with None Cons show ?thesis by (simp add: strNodes_append)
  next
    case (Some p)
    then have "children p = strNodes g" by (rule createParagraphNode_fields)
    with Some Cons show ?thesis by (simp add: strNodes_append)
  qed
qed

lemma paragraphs_raw:
  "list_all (\<lambda>g. strNodes g \<noteq> []) gs \<Longrightarrow>
   map raw (paragraphs gs) = map (\<lambda>g. join [newline] (map text' g)) gs"
  by (induction gs) (simp_all add: createParagraphNode_Some)

lemma convert_children:
  "children (convertToTextlintAst toks src)
   = paragraphs (groupConsecutiveNodes (filter isRustdoc toks))"
proof (cases "paragraphs (groupConsecutiveNodes (filter isRustdoc toks)) = []")
  case True
  then show ?thesis by (simp add: convertToTextlintAst_def at_first_last)
next
  case False
  then show ?thesis by (simp add: convertToTextlintAst_def Let_def at_first_last)
qed

lemma convert_empty:
  "paragraphs (groupConsecutiveNodes (filter isRustdoc toks)) = [] \<Longrightarrow>
   convertToTextlintAst toks src
   = \<lparr>type' = Document, raw = src, range' = (0, length src),
      loc = \<lparr>start = \<lparr>line = 1, column' = 0\<rparr>, end' = \<lparr>line = 1, column' = 0\<rparr>\<rparr>,
      children = []\<rparr>"
  by (simp add: convertToTextlintAst_def at_first_last)

lemma convert_nonempty:
  "paragraphs (groupConsecutiveNodes (filter isRustdoc toks)) = cs \<Longrightarrow> cs \<noteq> [] \<Longrightarrow>
   convertToTextlintAst toks src
   = \<lparr>type' = Document, raw = src,
      range' = (fst (range' (hd cs)), snd (range' (last cs))),
      loc = \<lparr>start = start (loc (hd cs)), end' = end' (loc (last cs))\<rparr>,
      children = cs\<rparr>"
  by (simp add: convertToTextlintAst_def Let_def at_first_last)

lemma convert_wf: "wf_document src (convertToTextlintAst toks src)"
proof (cases "paragraphs (groupConsecutiveNodes (filter isRustdoc toks)) = []")
  case True
  then show ?thesis by (simp add: convert_empty wf_document_def)
next
  case False
  from convert_nonempty [OF refl False] show ?thesis
    using False paragraphs_wf [of "groupConsecutiveNodes (filter isRustdoc toks)"]
    by (simp add: wf_document_def)
qed

lemma groups_of_rustdoc:
  "list_all (\<lambda>g. strNodes g \<noteq> []) (groupConsecutiveNodes (filter isRustdoc toks))"
proof -
  let ?xs = "filter isRustdoc toks"
  have rp: "run_partition ?xs (groupConsecutiveNodes ?xs)"
    by (rule groupConsecutiveNodes_run_partition)
  show ?thesis
    unfolding list_all_iff
  proof
    fix g assume g: "g \<in> set (groupConsecutiveNodes ?xs)"
    with rp have "g \<noteq> []" by (auto simp: run_partition_def list_all_iff)
    moreover from g have "set g \<subseteq> set (concat (groupConsecutiveNodes ?xs))" by auto
    with rp have "set g \<subseteq> set ?xs" by (simp add: run_partition_def)
    ultimately have "\<exists>n\<in>set g. isRustdoc n"
      by (cases g) auto
    then show "strNodes g \<noteq> []"
      by (auto simp: strNodes_eq_Nil)
  qed
qed

lemma groups_concat: "concat (groupConsecutiveNodes xs) = xs"
  using groupConsecutiveNodes_run_partition [of xs] by (simp add: run_partition_def)

lemma convert_strNodes:
  "concat (map children (children (convertToTextlintAst toks src))) = strNodes toks"
  by (simp only: convert_children paragraphs_children groups_concat strNodes_filter)

section \<open>Evaluation on concrete tokens\<close>

lemma wf_tokenAt: "wf_token (tokenAt s i r c)"
  by (simp add: wf_token_def tokenAt_def js_def)

lemmas ev = tokenAt_def js_def createStrNode_def Let_def match_marker_def startsWith_def slice_def
  processBlockContent_def trim_def replace_star_def is_space_def newline_def star_def
  getRustdocType_def advance_def pos_le_def wf_token_def

section \<open>The claims\<close>

text \<open>
  C1, as amended. For every source text, \<open>convertToTextlintAst\<close> applied to no token,
  or to tokens none of which is a documentation comment, returns the document with no
  children, the range \<open>[0, text.length]\<close> and the fixed location that starts and ends
  at line 1, column 0, whatever the length of the text.
\<close>

theorem convert_without_rustdoc:
  "convertToTextlintAst [] src
   = \<lparr>type' = Document, raw = src, range' = (0, length src),
      loc = \<lparr>start = \<lparr>line = 1, column' = 0\<rparr>, end' = \<lparr>line = 1, column' = 0\<rparr>\<rparr>,
      children = []\<rparr>
   \<and> ((\<forall>n\<in>set toks. getRustdocType (text' n) = None) \<longrightarrow>
        convertToTextlintAst toks src
        = \<lparr>type' = Document, raw = src, range' = (0, length src),
           loc = \<lparr>start = \<lparr>line = 1, column' = 0\<rparr>, end' = \<lparr>line = 1, column' = 0\<rparr>\<rparr>,
           children = []\<rparr>)"
proof (intro conjI impI)
  show "convertToTextlintAst [] src
   = \<lparr>type' = Document, raw = src, range' = (0, length src),
      loc = \<lparr>start = \<lparr>line = 1, column' = 0\<rparr>, end' = \<lparr>line = 1, column' = 0\<rparr>\<rparr>,
      children = []\<rparr>"
    by (rule convert_empty) (simp add: groupConsecutiveNodes_def)
next
  assume "\<forall>n\<in>set toks. getRustdocType (text' n) = None"
  then have "filter isRustdoc toks = []" by (simp add: filter_empty_conv)
  then show "convertToTextlintAst toks src
        = \<lparr>type' = Document, raw = src, range' = (0, length src),
           loc = \<lparr>start = \<lparr>line = 1, column' = 0\<rparr>, end' = \<lparr>line = 1, column' = 0\<rparr>\<rparr>,
           children = []\<rparr>"
    by (intro convert_empty) (simp add: groupConsecutiveNodes_def)
qed

theorem convert_without_rustdoc_witness:
  "getRustdocType (text' (tokenAt ''// This is a regular comment.'' 0 0 0)) = None
   \<and> convertToTextlintAst [tokenAt ''// This is a regular comment.'' 0 0 0]
        (js ''// This is a regular comment.\<newline>fn main() {}'')
     = \<lparr>type' = Document, raw = js ''// This is a regular comment.\<newline>fn main() {}'',
        range' = (0, 42),
        loc = \<lparr>start = \<lparr>line = 1, column' = 0\<rparr>, end' = \<lparr>line = 1, column' = 0\<rparr>\<rparr>,
        children = []\<rparr>"
  using convert_without_rustdoc [of "js ''// This is a regular comment.\<newline>fn main() {}''"
      "[tokenAt ''// This is a regular comment.'' 0 0 0]"]
  by (simp add: tokenAt_def js_def getRustdocType_def startsWith_def)

text \<open>
  The end of that location does not correspond to the end of the range: for the source
  \<open>fn main() {}\<close> the range ends at offset 12, which is line 1, column 12, and the
  location ends at line 1, column 0.
\<close>

theorem convert_empty_location_counterexample:
  "range' (convertToTextlintAst [] (js ''fn main() {}'')) = (0, 12)
   \<and> end' (loc (convertToTextlintAst [] (js ''fn main() {}''))) = \<lparr>line = 1, column' = 0\<rparr>
   \<and> locationOf (js ''fn main() {}'') 12 = \<lparr>line = 1, column' = 12\<rparr>
   \<and> end' (loc (convertToTextlintAst [] (js ''fn main() {}'')))
       \<noteq> locationOf (js ''fn main() {}'')
            (snd (range' (convertToTextlintAst [] (js ''fn main() {}''))))"
  by (simp add: convertToTextlintAst_def groupConsecutiveNodes_def at_first_def at_last_def
      locationOf_def advance_def js_def newline_def)

text \<open>
  C2. \<open>groupConsecutiveNodes\<close> partitions any token sequence (a row-sorted one in
  particular) into maximal runs: the groups, concatenated, are the input; every group is
  non-empty and each of its tokens starts exactly one row below the token before it; a
  group never starts one row below the end of the group before it, so any other gap
  begins a new group; and no other grouping has these properties. Tokens at start rows
  2, 3 and 5 give the groups \<open>[[2, 3], [5]]\<close>, one token gives one group of size 1, and
  no token gives no group.
\<close>

theorem groupConsecutiveNodes_maximal_runs:
  "run_partition xs (groupConsecutiveNodes xs)
   \<and> (\<forall>gs. run_partition xs gs \<longrightarrow> gs = groupConsecutiveNodes xs)
   \<and> (srow a = 2 \<and> srow b = 3 \<and> srow c = 5
        \<longrightarrow> groupConsecutiveNodes [a, b, c] = [[a, b], [c]])
   \<and> groupConsecutiveNodes [a] = [[a]]
   \<and> groupConsecutiveNodes [] = []"
proof -
  have "run_partition xs (groupConsecutiveNodes xs)"
    by (rule groupConsecutiveNodes_run_partition)
  moreover from this have "\<forall>gs. run_partition xs gs \<longrightarrow> gs = groupConsecutiveNodes xs"
    by (blast intro: run_partition_unique)
  moreover have "srow a = 2 \<and> srow b = 3 \<and> srow c = 5
      \<longrightarrow> groupConsecutiveNodes [a, b, c] = [[a, b], [c]]"
    by (simp add: groupConsecutiveNodes_def)
  moreover have "groupConsecutiveNodes [a] = [[a]]" "groupConsecutiveNodes [] = []"
    by (simp_all add: groupConsecutiveNodes_def)
  ultimately show ?thesis by blast
qed

theorem groupConsecutiveNodes_maximal_runs_witness:
  "srow (tokenAt ''/// a'' 20 2 0) = 2 \<and> srow (tokenAt ''/// b'' 26 3 0) = 3
   \<and> srow (tokenAt ''/// c'' 40 5 0) = 5
   \<and> run_partition
        [tokenAt ''/// a'' 20 2 0, tokenAt ''/// b'' 26 3 0, tokenAt ''/// c'' 40 5 0]
        [[tokenAt ''/// a'' 20 2 0, tokenAt ''/// b'' 26 3 0], [tokenAt ''/// c'' 40 5 0]]
   \<and> groupConsecutiveNodes
        [tokenAt ''/// a'' 20 2 0, tokenAt ''/// b'' 26 3 0, tokenAt ''/// c'' 40 5 0]
      = [[tokenAt ''/// a'' 20 2 0, tokenAt ''/// b'' 26 3 0], [tokenAt ''/// c'' 40 5 0]]"
  using groupConsecutiveNodes_maximal_runs
    [of "[tokenAt ''/// a'' 20 2 0, tokenAt ''/// b'' 26 3 0, tokenAt ''/// c'' 40 5 0]"
        "tokenAt ''/// a'' 20 2 0" "tokenAt ''/// b'' 26 3 0" "tokenAt ''/// c'' 40 5 0"]
  by (simp add: tokenAt_def run_partition_def)

text \<open>
  C3, as amended. For a token of kind \<open>outer_block\<close> or \<open>inner_block\<close>,
  \<open>extractContent\<close> removes the first 3 and the last 2 characters of the raw text,
  splits the rest at line feeds (joining the pieces again gives the rest back), replaces
  each line by \<open>replace_star\<close> of it, joins the lines with line feeds, trims the whole,
  and reports the prefix length 3. \<open>replace_star\<close> strips a line only when a \<open>*\<close>
  follows its leading whitespace: then that whitespace, the \<open>*\<close> and one following
  whitespace character, if there is one, are removed, as the specification words it;
  any other line is left as it is. The four-line comment of scenario D gives
  \<open>Block doc comment.\<close> and \<open>Multiple lines.\<close>, joined by a line feed.
\<close>

theorem block_content_star_lines:
  assumes "k = outer_block \<or> k = inner_block"
  shows "extractContent s k
     = \<lparr>content = trim (join [newline] (map replace_star
                      (split newline (take (length s - 5) (drop 3 s))))),
        prefixLength = 3\<rparr>
   \<and> join [newline] (split newline b) = b
   \<and> replace_star l = (if star_led l then spec_strip_line l else l)
   \<and> (list_all is_space ws \<longrightarrow>
        replace_star (ws @ star # rest)
        = (case rest of [] \<Rightarrow> [] | d # t \<Rightarrow> if is_space d then t else rest))
   \<and> content (extractContent
        (js ''/**\<newline> * Block doc comment.\<newline> * Multiple lines.\<newline> */'') k)
      = js ''Block doc comment.\<newline>Multiple lines.''"
proof -
  have "extractContent s k
     = \<lparr>content = trim (join [newline] (map replace_star
                      (split newline (take (length s - 5) (drop 3 s))))),
        prefixLength = 3\<rparr>"
    using assms by (auto simp: slice_block processBlockContent_def)
  moreover have "content (extractContent
        (js ''/**\<newline> * Block doc comment.\<newline> * Multiple lines.\<newline> */'') k)
      = js ''Block doc comment.\<newline>Multiple lines.''"
    using assms by (auto simp: ev)
  ultimately show ?thesis
    using join_split [of newline b] replace_star_spec [of l] replace_star_led [of ws rest]
    by blast
qed

theorem block_content_star_lines_witness:
  "list_all is_space (js ''  '')
   \<and> star_led (js ''  * Multiple lines.'')
   \<and> replace_star (js ''  * Multiple lines.'') = js ''Multiple lines.''
   \<and> \<not> star_led (js ''  b'')
   \<and> replace_star (js ''  b'') = js ''  b''
   \<and> extractContent (js ''/*! a\<newline> * b */'') inner_block
       = \<lparr>content = js ''a\<newline>b'', prefixLength = 3\<rparr>"
  using block_content_star_lines [of inner_block "js ''/*! a\<newline> * b */''" "[]"
      "js ''  * Multiple lines.''" "js ''  ''" "js ''Multiple lines.''"]
    block_content_star_lines [of inner_block "[]" "[]" "js ''  b''" "[]" "[]"]
  by (simp add: ev star_led_def spec_strip_line_def)

text \<open>
  With an optional \<open>*\<close>, as the claim words it, the leading whitespace of a line
  without \<open>*\<close> would go as well; the code keeps it.
\<close>

theorem block_content_optional_star_counterexample:
  "content (extractContent (js ''/**\<newline> a\<newline>  b\<newline>*/'') outer_block)
     = js ''a\<newline>  b''
   \<and> spec_block_content (js ''/**\<newline> a\<newline>  b\<newline>*/'') = js ''a\<newline>b''
   \<and> content (extractContent (js ''/**\<newline> a\<newline>  b\<newline>*/'') outer_block)
     \<noteq> spec_block_content (js ''/**\<newline> a\<newline>  b\<newline>*/'')"
  by (simp add: ev spec_block_content_def spec_strip_line_def)

text \<open>
  C4. Classification: a text starting with \<open>///\<close> is \<open>outer_line\<close>; with \<open>//!\<close>,
  \<open>inner_line\<close>; with \<open>/**\<close> but not \<open>/***\<close>, \<open>outer_block\<close>; with \<open>/*!\<close>,
  \<open>inner_block\<close>; any other text is classified \<open>None\<close>. A token classified \<open>None\<close>
  is in no node that the conversion builds: the conversion gives the same document
  without these tokens, the string leaves of its paragraphs are, in order, the leaves
  of the documentation tokens, and the raw texts of its paragraphs are those of the
  groups of the documentation tokens.
\<close>

theorem classification_rules_and_exclusion:
  "(startsWith s (js ''///'') \<longrightarrow> getRustdocType s = Some outer_line)
   \<and> (startsWith s (js ''//!'') \<longrightarrow> getRustdocType s = Some inner_line)
   \<and> (startsWith s (js ''/**'') \<and> \<not> startsWith s (js ''/***'')
        \<longrightarrow> getRustdocType s = Some outer_block)
   \<and> (startsWith s (js ''/*!'') \<longrightarrow> getRustdocType s = Some inner_block)
   \<and> (\<not> startsWith s (js ''///'') \<and> \<not> startsWith s (js ''//!'')
        \<and> \<not> (startsWith s (js ''/**'') \<and> \<not> startsWith s (js ''/***''))
        \<and> \<not> startsWith s (js ''/*!'')
        \<longrightarrow> getRustdocType s = None)
   \<and> convertToTextlintAst toks src = convertToTextlintAst (filter isRustdoc toks) src
   \<and> concat (map children (children (convertToTextlintAst toks src)))
      = map (\<lambda>n. createStrNode n (the (getRustdocType (text' n)))) (filter isRustdoc toks)
   \<and> map raw (children (convertToTextlintAst toks src))
      = map (\<lambda>g. join [newline] (map text' g)) (groupConsecutiveNodes (filter isRustdoc toks))
   \<and> concat (groupConsecutiveNodes (filter isRustdoc toks)) = filter isRustdoc toks"
proof -
  have "\<not> startsWith s (js ''///'') \<and> \<not> startsWith s (js ''//!'')
        \<and> \<not> (startsWith s (js ''/**'') \<and> \<not> startsWith s (js ''/***''))
        \<and> \<not> startsWith s (js ''/*!'')
        \<longrightarrow> getRustdocType s = None"
    by (simp add: getRustdocType_def)
  moreover have "convertToTextlintAst toks src = convertToTextlintAst (filter isRustdoc toks) src"
    by (simp add: convertToTextlintAst_def)
  moreover have "concat (groupConsecutiveNodes (filter isRustdoc toks)) = filter isRustdoc toks"
    by (rule groups_concat)
  moreover have "concat (map children (children (convertToTextlintAst toks src)))
      = map (\<lambda>n. createStrNode n (the (getRustdocType (text' n)))) (filter isRustdoc toks)"
    by (simp only: convert_strNodes strNodes_map)
  moreover have "map raw (children (convertToTextlintAst toks src))
      = map (\<lambda>g. join [newline] (map text' g)) (groupConsecutiveNodes (filter isRustdoc toks))"
    by (simp only: convert_children paragraphs_raw [OF groups_of_rustdoc])
  ultimately show ?thesis
    using getRustdocType_rules(1-4) [of s] by blast
qed

theorem classification_rules_and_exclusion_witness:
  "startsWith (js ''/// a'') (js ''///'') \<and> getRustdocType (js ''/// a'') = Some outer_line
   \<and> startsWith (js ''//! b'') (js ''//!'') \<and> getRustdocType (js ''//! b'') = Some inner_line
   \<and> startsWith (js ''/** c */'') (js ''/**'') \<and> \<not> startsWith (js ''/** c */'') (js ''/***'')
   \<and> getRustdocType (js ''/** c */'') = Some outer_block
   \<and> startsWith (js ''/*! d */'') (js ''/*!'') \<and> getRustdocType (js ''/*! d */'') = Some inner_block
   \<and> getRustdocType (js ''// some comment.'') = None
   \<and> map raw (children (convertToTextlintAst
        [tokenAt ''/// a'' 0 0 0, tokenAt ''// some comment.'' 6 1 0, tokenAt ''//! b'' 23 2 0]
        (js ''/// a\<newline>// some comment.\<newline>//! b'')))
      = [js ''/// a'', js ''//! b'']
   \<and> map value' (concat (map children (children (convertToTextlintAst
        [tokenAt ''/// a'' 0 0 0, tokenAt ''// some comment.'' 6 1 0, tokenAt ''//! b'' 23 2 0]
        (js ''/// a\<newline>// some comment.\<newline>//! b''))))) = [js ''a'', js ''b'']"
proof -
  let ?toks = "[tokenAt ''/// a'' 0 0 0, tokenAt ''// some comment.'' 6 1 0,
    tokenAt ''//! b'' 23 2 0]"
  let ?src = "js ''/// a\<newline>// some comment.\<newline>//! b''"
  note t = classification_rules_and_exclusion
  have a1: "startsWith (js ''/// a'') (js ''///'')"
    and a2: "startsWith (js ''//! b'') (js ''//!'')"
    and a3: "startsWith (js ''/** c */'') (js ''/**'') \<and> \<not> startsWith (js ''/** c */'') (js ''/***'')"
    and a4: "startsWith (js ''/*! d */'') (js ''/*!'')"
    and a5: "\<not> startsWith (js ''// some comment.'') (js ''///'')
        \<and> \<not> startsWith (js ''// some comment.'') (js ''//!'')
        \<and> \<not> (startsWith (js ''// some comment.'') (js ''/**'')
             \<and> \<not> startsWith (js ''// some comment.'') (js ''/***''))
        \<and> \<not> startsWith (js ''// some comment.'') (js ''/*!'')"
    by (simp_all add: startsWith_def js_def)
  have f: "filter isRustdoc ?toks = [tokenAt ''/// a'' 0 0 0, tokenAt ''//! b'' 23 2 0]"
    by (simp add: tokenAt_def getRustdocType_def startsWith_def js_def)
  have g: "groupConsecutiveNodes [tokenAt ''/// a'' 0 0 0, tokenAt ''//! b'' 23 2 0]
      = [[tokenAt ''/// a'' 0 0 0], [tokenAt ''//! b'' 23 2 0]]"
    by (simp add: tokenAt_def groupConsecutiveNodes_def)
  have v: "map (\<lambda>n. value' (createStrNode n (the (getRustdocType (text' n)))))
      [tokenAt ''/// a'' 0 0 0, tokenAt ''//! b'' 23 2 0] = [js ''a'', js ''b'']"
    by (simp add: ev)
  from t [of "js ''/// a''", THEN conjunct1] a1
  have "getRustdocType (js ''/// a'') = Some outer_line" by (rule mp)
  moreover from t [of "js ''//! b''", THEN conjunct2, THEN conjunct1] a2
  have "getRustdocType (js ''//! b'') = Some inner_line" by (rule mp)
  moreover from t [of "js ''/** c */''", THEN conjunct2, THEN conjunct2, THEN conjunct1] a3
  have "getRustdocType (js ''/** c */'') = Some outer_block" by (rule mp)
  moreover from t [of "js ''/*! d */''", THEN conjunct2, THEN conjunct2, THEN conjunct2,
    THEN conjunct1] a4
  have "getRustdocType (js ''/*! d */'') = Some inner_block" by (rule mp)
  moreover from t [of "js ''// some comment.''", THEN conjunct2, THEN conjunct2, THEN conjunct2,
    THEN conjunct2, THEN conjunct1] a5
  have "getRustdocType (js ''// some comment.'') = None" by (rule mp)
  moreover from t [of "[]" ?toks ?src, THEN conjunct2, THEN conjunct2, THEN conjunct2,
    THEN conjunct2, THEN conjunct2, THEN conjunct2, THEN conjunct2, THEN conjunct1]
  have "map raw (children (convertToTextlintAst ?toks ?src)) = [js ''/// a'', js ''//! b'']"
    unfolding f g by (simp add: tokenAt_def)
  moreover from t [of "[]" ?toks ?src, THEN conjunct2, THEN conjunct2, THEN conjunct2,
    THEN conjunct2, THEN conjunct2, THEN conjunct2, THEN conjunct1]
  have "map value' (concat (map children (children (convertToTextlintAst ?toks ?src))))
      = [js ''a'', js ''b'']"
    unfolding f using v by simp
  ultimately show ?thesis
    using a1 a2 a3 a4 by blast
qed

text \<open>
  C5. For a token of the tokenizer that is a line comment (\<open>outer_line\<close> or
  \<open>inner_line\<close>), the string leaf has \<open>range[1] - range[0]\<close> equal to the length of
  its content, exactly. For a block comment it is not so: the range of a block comment
  longer than its opening marker is longer than the content.
\<close>

theorem line_comment_range_is_content_length:
  "(wf_token n \<and> getRustdocType (text' n) = Some k \<and> (k = outer_line \<or> k = inner_line)
      \<longrightarrow> snd (range' (createStrNode n k))
            = fst (range' (createStrNode n k)) + length (value' (createStrNode n k))
          \<and> int (snd (range' (createStrNode n k))) - int (fst (range' (createStrNode n k)))
            = int (length (value' (createStrNode n k))))
   \<and> (wf_token n \<and> getRustdocType (text' n) = Some k \<and> (k = outer_block \<or> k = inner_block)
        \<and> 3 < length (text' n)
      \<longrightarrow> fst (range' (createStrNode n k)) + length (value' (createStrNode n k))
            < snd (range' (createStrNode n k)))"
proof (intro conjI impI)
  assume a: "wf_token n \<and> getRustdocType (text' n) = Some k \<and> (k = outer_line \<or> k = inner_line)"
  then have "prefixLength (extractContent (text' n) k) \<le> length (text' n)"
    by (simp add: prefixLength_le_length)
  moreover from a have "content (extractContent (text' n) k)
      = drop (prefixLength (extractContent (text' n) k)) (text' n)"
    by (simp add: content_line)
  ultimately show e: "snd (range' (createStrNode n k))
      = fst (range' (createStrNode n k)) + length (value' (createStrNode n k))"
    using a by (simp add: createStrNode_fields wf_token_def)
  then show "int (snd (range' (createStrNode n k))) - int (fst (range' (createStrNode n k)))
      = int (length (value' (createStrNode n k)))"
    by simp
next
  assume a: "wf_token n \<and> getRustdocType (text' n) = Some k \<and> (k = outer_block \<or> k = inner_block)
    \<and> 3 < length (text' n)"
  then have "prefixLength (extractContent (text' n) k) = 3"
    by auto
  moreover from a have "length (content (extractContent (text' n) k)) \<le> length (text' n) - 5"
    using length_content_body [of "text' n" k] by auto
  moreover from a have "3 < length (text' n)" by simp
  ultimately have "prefixLength (extractContent (text' n) k)
      + length (content (extractContent (text' n) k)) < length (text' n)"
    by arith
  with a show "fst (range' (createStrNode n k)) + length (value' (createStrNode n k))
      < snd (range' (createStrNode n k))"
    by (simp add: createStrNode_fields wf_token_def)
qed

theorem line_comment_range_is_content_length_witness:
  "wf_token (tokenAt ''/// next line.'' 31 1 0)
   \<and> getRustdocType (text' (tokenAt ''/// next line.'' 31 1 0)) = Some outer_line
   \<and> range' (createStrNode (tokenAt ''/// next line.'' 31 1 0) outer_line) = (35, 45)
   \<and> value' (createStrNode (tokenAt ''/// next line.'' 31 1 0) outer_line) = js ''next line.''
   \<and> length (js ''next line.'') = 10
   \<and> wf_token (tokenAt ''/** a */'' 0 0 0)
   \<and> getRustdocType (text' (tokenAt ''/** a */'' 0 0 0)) = Some outer_block
   \<and> 3 < length (text' (tokenAt ''/** a */'' 0 0 0))
   \<and> range' (createStrNode (tokenAt ''/** a */'' 0 0 0) outer_block) = (3, 8)
   \<and> value' (createStrNode (tokenAt ''/** a */'' 0 0 0) outer_block) = js ''a''"
  using line_comment_range_is_content_length [of "tokenAt ''/// next line.'' 31 1 0" outer_line]
    line_comment_range_is_content_length [of "tokenAt ''/** a */'' 0 0 0" outer_block]
  by (simp add: ev)

text \<open>
  C6. For a token of the tokenizer that is a documentation comment, the string leaf has
  range start \<open>\<le>\<close> range end, its start location is at most its end location (by line,
  then by column), the start location is the token's start position with the row counted
  from 1 and the column advanced by the prefix length, and the end location is the
  token's end position with the row counted from 1.
\<close>

theorem strNode_start_before_end:
  assumes "wf_token n" and "getRustdocType (text' n) = Some k"
  shows "fst (range' (createStrNode n k)) \<le> snd (range' (createStrNode n k))
    \<and> pos_le (start (loc (createStrNode n k))) (end' (loc (createStrNode n k)))
    \<and> start (loc (createStrNode n k))
      = \<lparr>line = row (startPosition n) + 1,
         column' = column (startPosition n) + prefixLength (extractContent (text' n) k)\<rparr>
    \<and> end' (loc (createStrNode n k))
      = \<lparr>line = row (endPosition n) + 1, column' = column (endPosition n)\<rparr>"
proof -
  from assms(2) have p: "prefixLength (extractContent (text' n) k) \<le> length (text' n)"
    by (rule prefixLength_le_length)
  with assms(1) have "fst (range' (createStrNode n k)) \<le> snd (range' (createStrNode n k))"
    by (simp add: createStrNode_fields wf_token_def)
  moreover have "pos_le (start (loc (createStrNode n k))) (end' (loc (createStrNode n k)))"
  proof (cases "newline \<in> set (text' n)")
    case True
    then have "row (startPosition n) < row (advance (startPosition n) (text' n))"
      by (rule advance_rows)
    with assms(1) show ?thesis
      by (simp add: pos_le_def createStrNode_fields wf_token_def)
  next
    case False
    with assms(1) p show ?thesis
      by (simp add: pos_le_def createStrNode_fields wf_token_def advance_rows)
  qed
  ultimately show ?thesis
    by (simp add: createStrNode_fields)
qed

theorem strNode_start_before_end_witness:
  "wf_token (tokenAt ''/** foo\<newline>*/'' 0 0 0)
   \<and> getRustdocType (text' (tokenAt ''/** foo\<newline>*/'' 0 0 0)) = Some outer_block
   \<and> range' (createStrNode (tokenAt ''/** foo\<newline>*/'' 0 0 0) outer_block) = (3, 10)
   \<and> loc (createStrNode (tokenAt ''/** foo\<newline>*/'' 0 0 0) outer_block)
       = \<lparr>start = \<lparr>line = 1, column' = 3\<rparr>, end' = \<lparr>line = 2, column' = 2\<rparr>\<rparr>
   \<and> pos_le \<lparr>line = 1, column' = 3\<rparr> \<lparr>line = 2, column' = 2\<rparr>"
  using strNode_start_before_end [of "tokenAt ''/** foo\<newline>*/'' 0 0 0" outer_block]
  by (simp add: ev)

text \<open>
  C7. Every paragraph of a converted document has children, its range runs from the
  range start of its first child to the range end of its last child, and its location
  from the start location of the first to the end location of the last. A group yields
  no paragraph exactly when it has no child, which is when none of its tokens is a
  documentation comment; a paragraph that is built is never empty.
\<close>

theorem paragraphs_span_children:
  "(\<forall>p\<in>set (children (convertToTextlintAst toks src)).
      children p \<noteq> []
      \<and> range' p = (fst (range' (hd (children p))), snd (range' (last (children p))))
      \<and> loc p = \<lparr>start = start (loc (hd (children p))), end' = end' (loc (last (children p)))\<rparr>)
   \<and> (createParagraphNode g = None \<longleftrightarrow> strNodes g = [])
   \<and> (strNodes g = [] \<longleftrightarrow> (\<forall>n\<in>set g. getRustdocType (text' n) = None))
   \<and> (\<forall>p. createParagraphNode g = Some p \<longrightarrow> children p = strNodes g \<and> children p \<noteq> [])"
proof -
  have "\<forall>p\<in>set (children (convertToTextlintAst toks src)). paragraph_spans_children p"
    using paragraphs_wf [of "groupConsecutiveNodes (filter isRustdoc toks)"]
    by (simp add: convert_children list_all_iff)
  then have "\<forall>p\<in>set (children (convertToTextlintAst toks src)).
      children p \<noteq> []
      \<and> range' p = (fst (range' (hd (children p))), snd (range' (last (children p))))
      \<and> loc p = \<lparr>start = start (loc (hd (children p))), end' = end' (loc (last (children p)))\<rparr>"
    by (simp add: paragraph_spans_children_def)
  moreover have "\<forall>p. createParagraphNode g = Some p \<longrightarrow> children p = strNodes g \<and> children p \<noteq> []"
    using createParagraphNode_fields(3,4) [of g]
    by (auto simp: paragraph_spans_children_def)
  ultimately show ?thesis
    using createParagraphNode_None [of g] strNodes_eq_Nil [of g] by blast
qed

theorem paragraphs_span_children_witness:
  "children (convertToTextlintAst
      [tokenAt ''/// This is a rustdoc comment.'' 0 0 0, tokenAt ''/// next line.'' 31 1 0]
      (js ''/// This is a rustdoc comment.\<newline>/// next line.\<newline>fn main() {}''))
   = [\<lparr>type' = Paragraph, raw = js ''/// This is a rustdoc comment.\<newline>/// next line.'',
       range' = (4, 45),
       loc = \<lparr>start = \<lparr>line = 1, column' = 4\<rparr>, end' = \<lparr>line = 2, column' = 14\<rparr>\<rparr>,
       children =
         [\<lparr>type' = Str, raw = js ''This is a rustdoc comment.'', range' = (4, 30),
           loc = \<lparr>start = \<lparr>line = 1, column' = 4\<rparr>, end' = \<lparr>line = 1, column' = 30\<rparr>\<rparr>,
           value' = js ''This is a rustdoc comment.''\<rparr>,
          \<lparr>type' = Str, raw = js ''next line.'', range' = (35, 45),
           loc = \<lparr>start = \<lparr>line = 2, column' = 4\<rparr>, end' = \<lparr>line = 2, column' = 14\<rparr>\<rparr>,
           value' = js ''next line.''\<rparr>]\<rparr>]
   \<and> children (hd (children (convertToTextlintAst
        [tokenAt ''/// This is a rustdoc comment.'' 0 0 0, tokenAt ''/// next line.'' 31 1 0]
        (js ''/// This is a rustdoc comment.\<newline>/// next line.\<newline>fn main() {}''))))
      \<noteq> []
   \<and> getRustdocType (text' (tokenAt ''// some comment.'' 50 3 4)) = None
   \<and> createParagraphNode [tokenAt ''// some comment.'' 50 3 4] = None"
proof -
  let ?toks = "[tokenAt ''/// This is a rustdoc comment.'' 0 0 0, tokenAt ''/// next line.'' 31 1 0]"
  let ?src = "js ''/// This is a rustdoc comment.\<newline>/// next line.\<newline>fn main() {}''"
  let ?g = "[tokenAt ''// some comment.'' 50 3 4]"
  note t = paragraphs_span_children [of ?toks ?src ?g]
  have c: "children (convertToTextlintAst ?toks ?src)
   = [\<lparr>type' = Paragraph, raw = js ''/// This is a rustdoc comment.\<newline>/// next line.'',
       range' = (4, 45),
       loc = \<lparr>start = \<lparr>line = 1, column' = 4\<rparr>, end' = \<lparr>line = 2, column' = 14\<rparr>\<rparr>,
       children =
         [\<lparr>type' = Str, raw = js ''This is a rustdoc comment.'', range' = (4, 30),
           loc = \<lparr>start = \<lparr>line = 1, column' = 4\<rparr>, end' = \<lparr>line = 1, column' = 30\<rparr>\<rparr>,
           value' = js ''This is a rustdoc comment.''\<rparr>,
          \<lparr>type' = Str, raw = js ''next line.'', range' = (35, 45),
           loc = \<lparr>start = \<lparr>line = 2, column' = 4\<rparr>, end' = \<lparr>line = 2, column' = 14\<rparr>\<rparr>,
           value' = js ''next line.''\<rparr>]\<rparr>]"
    by (simp add: ev groupConsecutiveNodes_def createParagraphNode_def at_first_def at_last_def
        convertToTextlintAst_def)
  have n: "getRustdocType (text' (tokenAt ''// some comment.'' 50 3 4)) = None"
    by (simp add: tokenAt_def getRustdocType_def startsWith_def js_def)
  from c have "hd (children (convertToTextlintAst ?toks ?src))
      \<in> set (children (convertToTextlintAst ?toks ?src))"
    by simp
  with t have "children (hd (children (convertToTextlintAst ?toks ?src))) \<noteq> []"
    by blast
  moreover from t n have "createParagraphNode ?g = None"
    by simp
  ultimately show ?thesis
    using c n by blast
qed

text \<open>
  C8. For a text of any of the four kinds, the content has none of the marker characters
  of the comment. The first three characters are the marker of the kind; the text is
  that marker, then the body, then (for a block comment) the at most two characters of
  the closing marker; and the content is a subsequence of the body. For a line comment
  the content is the text without its first 3 characters, or without its first 4
  exactly when there is a fourth character and it is whitespace. For a block comment
  the body is its lines joined by line feeds, and the content is these lines, each
  without its marker (the whitespace, the \<open>*\<close> and the one optional whitespace character
  with which it begins), joined by line feeds and trimmed; the block comment of
  scenario D gives \<open>Block doc comment.\<close> and \<open>Multiple lines.\<close>, joined by a line feed.
\<close>

theorem content_excludes_markers:
  assumes "getRustdocType s = Some k"
  shows "take 3 s = marker k
    \<and> subseq (content (extractContent s k)) (comment_body s k)
    \<and> s = marker k @ comment_body s k @ drop (3 + length (comment_body s k)) s
    \<and> (k = outer_line \<or> k = inner_line \<longrightarrow>
         content (extractContent s k) = drop (prefixLength (extractContent s k)) s
         \<and> (prefixLength (extractContent s k) = 3
            \<or> prefixLength (extractContent s k) = 4 \<and> is_space (s ! 3))
         \<and> (prefixLength (extractContent s k) = 4 \<longleftrightarrow> 3 < length s \<and> is_space (s ! 3)))
    \<and> (k = outer_block \<or> k = inner_block \<longrightarrow>
         length (drop (3 + length (comment_body s k)) s) \<le> 2
         \<and> (5 \<le> length s \<longrightarrow> length (drop (3 + length (comment_body s k)) s) = 2)
         \<and> join [newline] (split newline (comment_body s k)) = comment_body s k
         \<and> content (extractContent s k)
           = trim (join [newline]
               (map (\<lambda>l. drop (length (line_marker l)) l)
                  (split newline (comment_body s k)))))
    \<and> prefix (line_marker l) l
    \<and> (list_all is_space ws \<longrightarrow>
         line_marker (ws @ star # rest)
         = ws @ star # (case rest of [] \<Rightarrow> [] | d # _ \<Rightarrow> if is_space d then [d] else []))
    \<and> (\<not> star_led l \<longrightarrow> line_marker l = [])
    \<and> content (extractContent
         (js ''/**\<newline> * Block doc comment.\<newline> * Multiple lines.\<newline> */'') outer_block)
       = js ''Block doc comment.\<newline>Multiple lines.''"
proof -
  from assms have m: "take 3 s = marker k"
    by (rule getRustdocType_marker)
  have "prefix (comment_body s k) (drop 3 s)"
    by (cases k) (simp_all add: take_is_prefix)
  then obtain r where r: "drop 3 s = comment_body s k @ r"
    by (auto simp: prefix_def)
  then have "drop (length (comment_body s k)) (drop 3 s) = r"
    by simp
  then have "r = drop (3 + length (comment_body s k)) s"
    by (simp add: add.commute)
  moreover have "s = take 3 s @ drop 3 s" by simp
  ultimately have "s = marker k @ comment_body s k @ drop (3 + length (comment_body s k)) s"
    using m r by simp
  moreover have "k = outer_line \<or> k = inner_line \<longrightarrow>
         content (extractContent s k) = drop (prefixLength (extractContent s k)) s
         \<and> (prefixLength (extractContent s k) = 3
            \<or> prefixLength (extractContent s k) = 4 \<and> is_space (s ! 3))
         \<and> (prefixLength (extractContent s k) = 4 \<longleftrightarrow> 3 < length s \<and> is_space (s ! 3))"
    using prefixLength_cases [of s k] prefixLength_4_space [of s k] content_line [of k s]
      prefixLength_4_iff [OF assms]
    by blast
  moreover have "k = outer_block \<or> k = inner_block \<longrightarrow>
         length (drop (3 + length (comment_body s k)) s) \<le> 2
         \<and> (5 \<le> length s \<longrightarrow> length (drop (3 + length (comment_body s k)) s) = 2)"
    by (cases k) auto
  moreover have "k = outer_block \<or> k = inner_block \<longrightarrow>
         content (extractContent s k)
           = trim (join [newline]
               (map (\<lambda>l. drop (length (line_marker l)) l)
                  (split newline (comment_body s k))))"
    using content_block_lines [of k s] by blast
  moreover have "join [newline] (split newline (comment_body s k)) = comment_body s k"
    by (rule join_split)
  moreover have "content (extractContent
         (js ''/**\<newline> * Block doc comment.\<newline> * Multiple lines.\<newline> */'') outer_block)
       = js ''Block doc comment.\<newline>Multiple lines.''"
    by (simp add: ev)
  ultimately show ?thesis
    using m content_subseq_body [of s k] prefix_line_marker [of l]
      line_marker_led [of ws rest] line_marker_none [of l]
    by blast
qed

theorem content_excludes_markers_witness:
  "getRustdocType (js ''//! Crate-level documentation.'') = Some inner_line
   \<and> take 3 (js ''//! Crate-level documentation.'') = marker inner_line
   \<and> comment_body (js ''//! Crate-level documentation.'') inner_line
       = js '' Crate-level documentation.''
   \<and> content (extractContent (js ''//! Crate-level documentation.'') inner_line)
       = js ''Crate-level documentation.''
   \<and> getRustdocType (js ''/**\<newline> * Block doc comment.\<newline> * Multiple lines.\<newline> */'')
       = Some outer_block
   \<and> comment_body (js ''/**\<newline> * Block doc comment.\<newline> * Multiple lines.\<newline> */'')
         outer_block
       = js ''\<newline> * Block doc comment.\<newline> * Multiple lines.\<newline> ''
   \<and> list_all is_space (js '' '')
   \<and> line_marker (js '' * Multiple lines.'') = js '' * ''
   \<and> \<not> star_led (js ''Multiple lines.'')
   \<and> line_marker (js ''Multiple lines.'') = []
   \<and> content (extractContent
         (js ''/**\<newline> * Block doc comment.\<newline> * Multiple lines.\<newline> */'') outer_block)
       = js ''Block doc comment.\<newline>Multiple lines.''"
proof -
  let ?line = "js ''//! Crate-level documentation.''"
  let ?block = "js ''/**\<newline> * Block doc comment.\<newline> * Multiple lines.\<newline> */''"
  have k1: "getRustdocType ?line = Some inner_line"
    and k2: "getRustdocType ?block = Some outer_block"
    by (simp_all add: getRustdocType_def startsWith_def js_def)
  note t1 = content_excludes_markers [OF k1, of "js ''Multiple lines.''" "[]" "[]"]
  note t2 = content_excludes_markers
    [OF k2, of "js '' * Multiple lines.''" "js '' ''" "js '' Multiple lines.''"]
  have b1: "comment_body ?line inner_line = js '' Crate-level documentation.''"
    and b2: "comment_body ?block outer_block
      = js ''\<newline> * Block doc comment.\<newline> * Multiple lines.\<newline> ''"
    by (simp_all add: js_def)
  have sp: "list_all is_space (js '' '')"
    by (simp add: js_def is_space_def)
  have ns: "\<not> star_led (js ''Multiple lines.'')"
    by (simp add: star_led_def js_def is_space_def star_def)
  have p: "prefixLength (extractContent ?line inner_line) = 4"
    by (simp add: ev)
  from t1 have "take 3 ?line = marker inner_line" by (rule conjunct1)
  moreover from t1 have "content (extractContent ?line inner_line)
      = drop (prefixLength (extractContent ?line inner_line)) ?line"
    by blast
  then have "content (extractContent ?line inner_line) = js ''Crate-level documentation.''"
    unfolding p by (simp add: js_def)
  moreover from t1 ns have "line_marker (js ''Multiple lines.'') = []"
    by blast
  moreover from t2 sp have "line_marker (js '' '' @ star # js '' Multiple lines.'')
      = js '' '' @ star # (case js '' Multiple lines.'' of [] \<Rightarrow> []
          | d # _ \<Rightarrow> if is_space d then [d] else [])"
    by blast
  then have "line_marker (js '' * Multiple lines.'') = js '' * ''"
    by (simp add: js_def star_def is_space_def)
  moreover from t2 have "content (extractContent ?block outer_block)
      = js ''Block doc comment.\<newline>Multiple lines.''"
    by blast
  ultimately show ?thesis
    using k1 k2 b1 b2 sp ns by blast
qed

text \<open>
  C9. The classifier, the extraction and the conversion are total: each is a function
  defined on every input with no failing branch (a failed match and an absent first or
  last element are values that the code tests). On every input the conversion returns
  a well-formed document, which has no children when no token is a documentation
  comment; the classifier returns one of the four kinds or \<open>None\<close>; the extraction
  reports a prefix length of 3 or 4, which is the fixed 3 when the marker of a line kind
  is absent from the text (the content is then the text without its first 3
  characters) and for every block comment.
\<close>

theorem conversion_total_well_formed:
  "wf_document src (convertToTextlintAst toks src)
   \<and> (filter isRustdoc toks = [] \<longrightarrow> children (convertToTextlintAst toks src) = [])
   \<and> (getRustdocType s = None \<or> getRustdocType s = Some outer_line
        \<or> getRustdocType s = Some inner_line \<or> getRustdocType s = Some outer_block
        \<or> getRustdocType s = Some inner_block)
   \<and> (prefixLength (extractContent s k) = 3 \<or> prefixLength (extractContent s k) = 4)
   \<and> ((k = outer_line \<or> k = inner_line) \<and> \<not> startsWith s (marker k)
        \<longrightarrow> extractContent s k = \<lparr>content = drop 3 s, prefixLength = 3\<rparr>)
   \<and> (k = outer_block \<or> k = inner_block \<longrightarrow> prefixLength (extractContent s k) = 3)"
proof -
  have "filter isRustdoc toks = [] \<longrightarrow> children (convertToTextlintAst toks src) = []"
    by (simp add: convert_children groupConsecutiveNodes_def)
  moreover have "getRustdocType s = None \<or> getRustdocType s = Some outer_line
        \<or> getRustdocType s = Some inner_line \<or> getRustdocType s = Some outer_block
        \<or> getRustdocType s = Some inner_block"
    by (simp add: getRustdocType_def)
  moreover have "(k = outer_line \<or> k = inner_line) \<and> \<not> startsWith s (marker k)
        \<longrightarrow> extractContent s k = \<lparr>content = drop 3 s, prefixLength = 3\<rparr>"
    using slice_from [of s 3] by (auto simp: match_marker_def)
  moreover have "k = outer_block \<or> k = inner_block \<longrightarrow> prefixLength (extractContent s k) = 3"
    by auto
  ultimately show ?thesis
    using convert_wf [of src toks] prefixLength_cases [of s k] by blast
qed

theorem conversion_total_well_formed_witness:
  "wf_document (js ''fn main() {}'')
     (convertToTextlintAst [tokenAt ''// x'' 0 0 0] (js ''fn main() {}''))
   \<and> filter isRustdoc [tokenAt ''// x'' 0 0 0] = []
   \<and> children (convertToTextlintAst [tokenAt ''// x'' 0 0 0] (js ''fn main() {}'')) = []
   \<and> \<not> startsWith (js ''foo bar'') (marker outer_line)
   \<and> extractContent (js ''foo bar'') outer_line = \<lparr>content = js '' bar'', prefixLength = 3\<rparr>
   \<and> prefixLength (extractContent (js ''/*! d */'') inner_block) = 3"
proof -
  note t = conversion_total_well_formed
    [of "js ''fn main() {}''" "[tokenAt ''// x'' 0 0 0]" "js ''foo bar''" outer_line]
  note u = conversion_total_well_formed [of "[]" "[]" "js ''/*! d */''" inner_block]
  have f: "filter isRustdoc [tokenAt ''// x'' 0 0 0] = []"
    by (simp add: tokenAt_def getRustdocType_def startsWith_def js_def)
  have m: "\<not> startsWith (js ''foo bar'') (marker outer_line)"
    by (simp add: startsWith_def js_def)
  have d: "drop 3 (js ''foo bar'') = js '' bar''"
    by (simp add: js_def)
  from t m have "extractContent (js ''foo bar'') outer_line
      = \<lparr>content = drop 3 (js ''foo bar''), prefixLength = 3\<rparr>"
    by blast
  with d have "extractContent (js ''foo bar'') outer_line
      = \<lparr>content = js '' bar'', prefixLength = 3\<rparr>"
    by simp
  moreover from t f
  have "children (convertToTextlintAst [tokenAt ''// x'' 0 0 0] (js ''fn main() {}'')) = []"
    by blast
  moreover from t
  have "wf_document (js ''fn main() {}'')
     (convertToTextlintAst [tokenAt ''// x'' 0 0 0] (js ''fn main() {}''))"
    by (rule conjunct1)
  moreover from u have "prefixLength (extractContent (js ''/*! d */'') inner_block) = 3"
    by blast
  ultimately show ?thesis
    using f m by blast
qed

text \<open>
  C10. For a group with a documentation token and a token classified \<open>None\<close>,
  \<open>createParagraphNode\<close> builds a paragraph whose raw text is the raw texts of all
  tokens of the group joined by line feeds, so that the raw text of the \<open>None\<close> token
  is part of it, while the children are the leaves of the documentation tokens only,
  fewer than the tokens of the group.
\<close>

theorem paragraph_raw_keeps_plain_comments:
  assumes "d \<in> set g" and "isRustdoc d" and "p \<in> set g" and "getRustdocType (text' p) = None"
  shows "\<exists>P. createParagraphNode g = Some P
    \<and> raw P = join [newline] (map text' g)
    \<and> children P
      = map (\<lambda>n. createStrNode n (the (getRustdocType (text' n)))) (filter isRustdoc g)
    \<and> length (children P) < length g
    \<and> sublist (text' p) (raw P)"
proof -
  from assms(1,2) have ne: "strNodes g \<noteq> []"
    by (auto simp: strNodes_eq_Nil)
  let ?P = "\<lparr>type' = Paragraph, raw = join [newline] (map text' g),
           range' = (fst (range' (hd (strNodes g))), snd (range' (last (strNodes g)))),
           loc = \<lparr>start = start (loc (hd (strNodes g))), end' = end' (loc (last (strNodes g)))\<rparr>,
           children = strNodes g\<rparr>"
  from ne have c: "createParagraphNode g = Some ?P"
    by (rule createParagraphNode_Some)
  have "length (filter isRustdoc g) < length g"
    using assms(3,4) by (intro length_filter_less [of p]) simp_all
  then have "length (strNodes g) < length g"
    by (simp only: strNodes_map length_map)
  moreover have "sublist (text' p) (join [newline] (map text' g))"
    using assms(3) by (intro join_member_sublist) simp
  ultimately have "raw ?P = join [newline] (map text' g)
    \<and> children ?P
      = map (\<lambda>n. createStrNode n (the (getRustdocType (text' n)))) (filter isRustdoc g)
    \<and> length (children ?P) < length g
    \<and> sublist (text' p) (raw ?P)"
    by (simp add: strNodes_map)
  with c show ?thesis by blast
qed

theorem paragraph_raw_keeps_plain_comments_witness:
  "getRustdocType (text' (tokenAt ''/// a'' 0 0 0)) = Some outer_line
   \<and> getRustdocType (text' (tokenAt ''// plain'' 6 1 0)) = None
   \<and> createParagraphNode [tokenAt ''/// a'' 0 0 0, tokenAt ''// plain'' 6 1 0]
     = Some \<lparr>type' = Paragraph, raw = js ''/// a\<newline>// plain'', range' = (4, 5),
         loc = \<lparr>start = \<lparr>line = 1, column' = 4\<rparr>, end' = \<lparr>line = 1, column' = 5\<rparr>\<rparr>,
         children =
           [\<lparr>type' = Str, raw = js ''a'', range' = (4, 5),
             loc = \<lparr>start = \<lparr>line = 1, column' = 4\<rparr>, end' = \<lparr>line = 1, column' = 5\<rparr>\<rparr>,
             value' = js ''a''\<rparr>]\<rparr>
   \<and> sublist (js ''// plain'') (js ''/// a\<newline>// plain'')"
proof -
  let ?d = "tokenAt ''/// a'' 0 0 0" and ?p = "tokenAt ''// plain'' 6 1 0"
  have k: "getRustdocType (text' ?d) = Some outer_line" "getRustdocType (text' ?p) = None"
    by (simp_all add: tokenAt_def getRustdocType_def startsWith_def js_def)
  have c: "createParagraphNode [?d, ?p]
     = Some \<lparr>type' = Paragraph, raw = js ''/// a\<newline>// plain'', range' = (4, 5),
         loc = \<lparr>start = \<lparr>line = 1, column' = 4\<rparr>, end' = \<lparr>line = 1, column' = 5\<rparr>\<rparr>,
         children =
           [\<lparr>type' = Str, raw = js ''a'', range' = (4, 5),
             loc = \<lparr>start = \<lparr>line = 1, column' = 4\<rparr>, end' = \<lparr>line = 1, column' = 5\<rparr>\<rparr>,
             value' = js ''a''\<rparr>]\<rparr>"
    by (simp add: ev createParagraphNode_def at_first_def at_last_def)
  have "?d \<in> set [?d, ?p]" "isRustdoc ?d" "?p \<in> set [?d, ?p]"
    using k by simp_all
  from paragraph_raw_keeps_plain_comments [OF this k(2)]
  obtain P where P: "createParagraphNode [?d, ?p] = Some P" "sublist (text' ?p) (raw P)"
    by blast
  from P(1) c have "raw P = js ''/// a\<newline>// plain''"
    by auto
  with P(2) have "sublist (text' ?p) (js ''/// a\<newline>// plain'')"
    by simp
  then have "sublist (js ''// plain'') (js ''/// a\<newline>// plain'')"
    by (simp add: tokenAt_def)
  with k c show ?thesis by blast
qed

end
